theory Spec2Isabelle
  imports Complex_Main
begin

section \<open>Strings of the source\<close>

text \<open>
  The source is Python; its \<open>str\<close> is a sequence of Unicode code points. The model
  reads a \<^typ>\<open>char\<close> as the code point of the same number, so a \<^typ>\<open>string\<close>
  is a Python string all of whose code points are below 256 (ASCII and Latin-1, which
  holds every character of \<open>STOP_WORDS\<close> and \<open>PUNTUACION\<close>). The character classes
  below are those of the Unicode database on that range, which is what
  \<open>str.lower\<close>, \<open>str.isalpha\<close> and \<open>str.split\<close> consult. Texts with other code
  points are read in the section on the normalizer on every code point.
\<close>

definition code :: "char \<Rightarrow> nat" where
  "code c = of_char c"

text \<open>Characters with the property Uppercase: A-Z, U+00C0-U+00D6, U+00D8-U+00DE.\<close>

definition is_upper_char :: "char \<Rightarrow> bool" where
  "is_upper_char c =
     ((65 \<le> code c \<and> code c \<le> 90) \<or> (192 \<le> code c \<and> code c \<le> 214)
      \<or> (216 \<le> code c \<and> code c \<le> 222))"


text \<open>Letters (general category L*): what \<open>str.isalpha\<close> accepts, one character at a time.\<close>

definition isalpha_char :: "char \<Rightarrow> bool" where
  "isalpha_char c =
     ((65 \<le> code c \<and> code c \<le> 90) \<or> (97 \<le> code c \<and> code c \<le> 122)
      \<or> code c = 170 \<or> code c = 181 \<or> code c = 186
      \<or> (192 \<le> code c \<and> code c \<le> 214) \<or> (216 \<le> code c \<and> code c \<le> 246)
      \<or> (248 \<le> code c \<and> code c \<le> 255))"

text \<open>Whitespace, as \<open>str.split()\<close> without arguments sees it: U+0009-U+000D,
  U+001C-U+0020, U+0085, U+00A0.\<close>

definition isspace_char :: "char \<Rightarrow> bool" where
  "isspace_char c =
     ((9 \<le> code c \<and> code c \<le> 13) \<or> (28 \<le> code c \<and> code c \<le> 32)
      \<or> code c = 133 \<or> code c = 160)"

text \<open>The lowercase mapping: every uppercase character of the range has its lowercase
  partner 32 code points above it; every other character is mapped to itself.\<close>

definition lower_char :: "char \<Rightarrow> char" where
  "lower_char c = (if is_upper_char c then char_of (code c + 32) else c)"

text \<open>\<open>str.lower()\<close>.\<close>

definition lower :: "string \<Rightarrow> string" where
  "lower s = map lower_char s"

text \<open>\<open>str.isalpha()\<close>: false on the empty string.\<close>

definition isalpha :: "string \<Rightarrow> bool" where
  "isalpha s = (s \<noteq> [] \<and> list_all isalpha_char s)"


text \<open>\<open>str.replace(i, r)\<close> for one-character strings \<open>i\<close> and \<open>r\<close>.\<close>

definition replace :: "char \<Rightarrow> char \<Rightarrow> string \<Rightarrow> string" where
  "replace i r s = map (\<lambda>c. if c = i then r else c) s"

text \<open>\<open>str.split()\<close>: the maximal runs of characters that are not whitespace, in order.
  \<open>split_from cur s\<close> scans \<open>s\<close> with the word read so far, reversed, in \<open>cur\<close>.\<close>

fun split_from :: "string \<Rightarrow> string \<Rightarrow> string list" where
  "split_from cur [] = (if cur = [] then [] else [rev cur])"
| "split_from cur (c # cs) =
     (if isspace_char c
      then (if cur = [] then split_from [] cs else rev cur # split_from [] cs)
      else split_from (c # cur) cs)"

definition split :: "string \<Rightarrow> string list" where
  "split s = split_from [] s"

section \<open>The normalizer\<close>

definition STOP_WORDS :: "string set" where
  "STOP_WORDS = {''de'', ''la'', ''que'', ''el'', ''en'', ''y'', ''a'', ''los'', ''del'',
     ''se'', ''las'', ''por'', ''un'', ''para'', ''con'', ''no'', ''una'', ''su'', ''al'',
     ''lo'', ''como'', [CHR ''m'', CHR 0xE1, CHR ''s''], ''pero'', ''sus'', ''le'', ''ya'',
     ''o''}"

definition PUNTUACION :: "string" where
  "PUNTUACION = [CHR ''!'', CHR 0xA1, CHR 0x22, CHR ''#'', CHR ''$'', CHR ''%'', CHR ''&'',
     CHR 0x27, CHR ''('', CHR '')'', CHR ''*'', CHR ''+'', CHR '','', CHR ''-'', CHR ''.'',
     CHR ''/'', CHR '':'', CHR '';'', CHR ''<'', CHR ''='', CHR ''>'', CHR ''?'', CHR 0xBF,
     CHR ''@'', CHR ''['', CHR 0x5C, CHR '']'', CHR ''^'', CHR ''_'', CHR 0x60, CHR ''{'',
     CHR ''|'', CHR ''}'', CHR ''~'']"

text \<open>One round of the loop over \<open>PUNTUACION\<close>.\<close>

definition quitar :: "char \<Rightarrow> string \<Rightarrow> string" where
  "quitar i texto = (if i \<in> set texto then replace i (CHR '' '') texto else texto)"

definition normalizar_texto :: "string \<Rightarrow> string list" where
  "normalizar_texto texto =
     (let texto1 = lower texto;
          texto2 = fold quitar PUNTUACION texto1;
          palabras = split texto2
      in filter (\<lambda>p. p \<notin> STOP_WORDS \<and> isalpha p) palabras)"

section \<open>The normalizer on every code point\<close>














section \<open>The index and its queries\<close>

datatype py_error = IndexError | KeyError | AttributeError

type_synonym indice = "string \<rightharpoonup> string set"

text \<open>\<open>normalizar_texto(palabra)[0]\<close> raises \<open>IndexError\<close> on the empty list.\<close>

definition buscar_palabra_simple :: "string \<Rightarrow> indice \<Rightarrow> py_error + string set" where
  "buscar_palabra_simple palabra indice =
     (case normalizar_texto palabra of
        [] \<Rightarrow> Inl IndexError
      | p # _ \<Rightarrow> (case indice p of None \<Rightarrow> Inr {} | Some urls \<Rightarrow> Inr urls))"

text \<open>\<open>buscar_palabras_or\<close>: the loop \<open>for p in palabras\<close>, with \<open>res\<close> the set built so far.
  An exception raised by \<open>buscar_palabra_simple\<close> leaves the loop.\<close>

fun unir :: "string list \<Rightarrow> indice \<Rightarrow> string set \<Rightarrow> py_error + string set" where
  "unir [] indice res = Inr res"
| "unir (p # ps) indice res =
     (case buscar_palabra_simple p indice of
        Inl e \<Rightarrow> Inl e
      | Inr palabra_actual \<Rightarrow> unir ps indice (res \<union> palabra_actual))"

definition buscar_palabras_or :: "string \<Rightarrow> indice \<Rightarrow> py_error + string set" where
  "buscar_palabras_or frase indice = unir (normalizar_texto frase) indice {}"

text \<open>\<open>buscar_palabras_and\<close>: the loop \<open>for p in lista[1:]\<close>, which is left as soon as
  \<open>resultado\<close> is empty.\<close>

fun intersecar :: "string list \<Rightarrow> indice \<Rightarrow> string set \<Rightarrow> py_error + string set" where
  "intersecar [] indice resultado = Inr resultado"
| "intersecar (p # ps) indice resultado =
     (case buscar_palabra_simple p indice of
        Inl e \<Rightarrow> Inl e
      | Inr urls_palabra \<Rightarrow>
          (let resultado' = resultado \<inter> urls_palabra
           in if resultado' = {} then Inr resultado' else intersecar ps indice resultado'))"

definition buscar_palabras_and :: "string \<Rightarrow> indice \<Rightarrow> py_error + string set" where
  "buscar_palabras_and frase indice =
     (case normalizar_texto frase of
        [] \<Rightarrow> Inr {}
      | p # ps \<Rightarrow>
          (case buscar_palabra_simple p indice of
             Inl e \<Rightarrow> Inl e
           | Inr resultado \<Rightarrow> intersecar ps indice resultado))"

section \<open>The queries on a store\<close>

text \<open>
  The dictionary is passed by reference and its values are mutable set objects. To state
  what a call does to the index, the three queries are read here over a store: \<open>dic\<close> is
  the dictionary, from words to the addresses of their set objects, \<open>conj\<close> gives the
  content of the object at an address, and the addresses below \<open>libre\<close> are those in
  use. A query returns its result, an error or the address of the set it returns, together
  with the store it leaves.
\<close>

record memoria =
  dic :: "string \<rightharpoonup> nat"
  conj :: "nat \<Rightarrow> string set"
  libre :: nat

text \<open>\<open>set()\<close>, and every expression that builds a set: the new object takes the first free
  address.\<close>

definition nuevo :: "string set \<Rightarrow> memoria \<Rightarrow> nat \<times> memoria" where
  "nuevo s m = (libre m, m\<lparr>conj := (conj m)(libre m := s), libre := Suc (libre m)\<rparr>)"

text \<open>\<open>buscar_palabra_simple\<close>: \<open>return set()\<close> returns a new object, \<open>return indice[palabra]\<close>
  the object that the dictionary holds, not a copy of it.\<close>

definition buscar_palabra_simple_m :: "string \<Rightarrow> memoria \<Rightarrow> (py_error + nat) \<times> memoria" where
  "buscar_palabra_simple_m palabra m =
     (case normalizar_texto palabra of
        [] \<Rightarrow> (Inl IndexError, m)
      | p # _ \<Rightarrow>
          (case dic m p of
             None \<Rightarrow> (case nuevo {} m of (r, m') \<Rightarrow> (Inr r, m'))
           | Some r \<Rightarrow> (Inr r, m)))"

text \<open>\<open>res.update(otro)\<close> changes the object at \<open>res\<close> in place.\<close>

definition update :: "nat \<Rightarrow> nat \<Rightarrow> memoria \<Rightarrow> memoria" where
  "update res otro m = m\<lparr>conj := (conj m)(res := conj m res \<union> conj m otro)\<rparr>"

text \<open>\<open>buscar_palabras_or\<close>: \<open>res = set()\<close>, then the loop \<open>for p in palabras\<close>.\<close>

fun unir_m :: "string list \<Rightarrow> nat \<Rightarrow> memoria \<Rightarrow> (py_error + nat) \<times> memoria" where
  "unir_m [] res m = (Inr res, m)"
| "unir_m (p # ps) res m =
     (case buscar_palabra_simple_m p m of
        (Inl e, m') \<Rightarrow> (Inl e, m')
      | (Inr palabra_actual, m') \<Rightarrow> unir_m ps res (update res palabra_actual m'))"

definition buscar_palabras_or_m :: "string \<Rightarrow> memoria \<Rightarrow> (py_error + nat) \<times> memoria" where
  "buscar_palabras_or_m frase m =
     (case nuevo {} m of (res, m') \<Rightarrow> unir_m (normalizar_texto frase) res m')"

text \<open>\<open>a.intersection(b)\<close> builds a new set and leaves \<open>a\<close> and \<open>b\<close> as they are.\<close>

definition intersection :: "nat \<Rightarrow> nat \<Rightarrow> memoria \<Rightarrow> nat \<times> memoria" where
  "intersection a b m = nuevo (conj m a \<inter> conj m b) m"

text \<open>\<open>buscar_palabras_and\<close>: the loop \<open>for p in lista[1:]\<close>, where \<open>resultado\<close> is bound to a
  new object at every round.\<close>

fun intersecar_m :: "string list \<Rightarrow> nat \<Rightarrow> memoria \<Rightarrow> (py_error + nat) \<times> memoria" where
  "intersecar_m [] resultado m = (Inr resultado, m)"
| "intersecar_m (p # ps) resultado m =
     (case buscar_palabra_simple_m p m of
        (Inl e, m') \<Rightarrow> (Inl e, m')
      | (Inr urls_palabra, m') \<Rightarrow>
          (case intersection resultado urls_palabra m' of
             (resultado', m'') \<Rightarrow>
               if conj m'' resultado' = {} then (Inr resultado', m'')
               else intersecar_m ps resultado' m''))"

definition buscar_palabras_and_m :: "string \<Rightarrow> memoria \<Rightarrow> (py_error + nat) \<times> memoria" where
  "buscar_palabras_and_m frase m =
     (case normalizar_texto frase of
        [] \<Rightarrow> (case nuevo {} m of (r, m') \<Rightarrow> (Inr r, m'))
      | p # ps \<Rightarrow>
          (case buscar_palabra_simple_m p m of
             (Inl e, m') \<Rightarrow> (Inl e, m')
           | (Inr resultado, m') \<Rightarrow> intersecar_m ps resultado m'))"

section \<open>The index builder\<close>

text \<open>The body of the loop of \<open>procesar_url_en_indice\<close>: \<open>indice.get(p, None)\<close> is
  \<open>None\<close> on a missing key, and \<open>None.add\<close> raises \<open>AttributeError\<close>.\<close>

definition indexar :: "string \<Rightarrow> string \<Rightarrow> indice \<Rightarrow> py_error + indice" where
  "indexar url p indice =
     (let indice1 = (if indice p = None then indice(p \<mapsto> {}) else indice)
      in case indice1 p of
           None \<Rightarrow> Inl AttributeError
         | Some urls \<Rightarrow> Inr (indice1(p \<mapsto> insert url urls)))"

fun indexar_todas :: "string \<Rightarrow> string list \<Rightarrow> indice \<Rightarrow> py_error + indice" where
  "indexar_todas url [] indice = Inr indice"
| "indexar_todas url (p # ps) indice =
     (case indexar url p indice of
        Inl e \<Rightarrow> Inl e
      | Inr indice' \<Rightarrow> indexar_todas url ps indice')"

definition procesar_url_en_indice :: "string \<Rightarrow> string \<Rightarrow> indice \<Rightarrow> py_error + indice" where
  "procesar_url_en_indice url texto indice = indexar_todas url (normalizar_texto texto) indice"

text \<open>\<open>collections.Counter\<close>: the counts of the words, as the list of its items, a new
  word entering at the end (a dictionary keeps the order of insertion).\<close>

fun contar :: "string \<Rightarrow> (string \<times> nat) list \<Rightarrow> (string \<times> nat) list" where
  "contar w [] = [(w, 1)]"
| "contar w (kc # kcs) =
     (if fst kc = w then (fst kc, snd kc + 1) # kcs else kc # contar w kcs)"

definition Counter :: "string list \<Rightarrow> (string \<times> nat) list" where
  "Counter palabras = fold contar palabras []"

text \<open>\<open>Counter.most_common(n)\<close> is \<open>heapq.nlargest(n, items, key=count)\<close>, documented as
  \<open>sorted(items, key=count, reverse=True)[:n]\<close>: a stable sort by falling count, cut
  after \<open>n\<close> items; nothing is returned for \<open>n \<le> 0\<close>.\<close>

definition most_common :: "int \<Rightarrow> (string \<times> nat) list \<Rightarrow> (string \<times> nat) list" where
  "most_common n items = take (nat n) (sort_key (\<lambda>kc. - int (snd kc)) items)"

text \<open>The body of the second loop of \<open>procesar_url_en_indice_top_n\<close>: \<open>indice[p]\<close>
  raises \<open>KeyError\<close> on a missing key.\<close>

definition indexar_top :: "string \<Rightarrow> string \<Rightarrow> indice \<Rightarrow> py_error + indice" where
  "indexar_top url p indice =
     (let indice1 = (if indice p = None then indice(p \<mapsto> {}) else indice)
      in case indice1 p of
           None \<Rightarrow> Inl KeyError
         | Some urls \<Rightarrow> Inr (indice1(p \<mapsto> insert url urls)))"

fun indexar_todas_top :: "string \<Rightarrow> string list \<Rightarrow> indice \<Rightarrow> py_error + indice" where
  "indexar_todas_top url [] indice = Inr indice"
| "indexar_todas_top url (p # ps) indice =
     (case indexar_top url p indice of
        Inl e \<Rightarrow> Inl e
      | Inr indice' \<Rightarrow> indexar_todas_top url ps indice')"

definition top_palabras :: "string list \<Rightarrow> int \<Rightarrow> string list" where
  "top_palabras palabras top_n = map fst (most_common top_n (Counter palabras))"

definition procesar_url_en_indice_top_n ::
  "string \<Rightarrow> string \<Rightarrow> indice \<Rightarrow> int \<Rightarrow> py_error + indice" where
  "procesar_url_en_indice_top_n url texto indice top_n =
     indexar_todas_top url (top_palabras (normalizar_texto texto) top_n) indice"

section \<open>Statistics\<close>

text \<open>The quotient \<open>total_urls / num_palabras\<close> is a Python float; the model keeps the
  exact quotient.\<close>

definition calcula_estadisticas_indice :: "indice \<Rightarrow> nat \<times> nat \<times> real" where
  "calcula_estadisticas_indice indice =
     (let num_palabras = card (dom indice);
          urls_unicas = (\<Union>p \<in> dom indice. the (indice p));
          num_urls_unicas = card urls_unicas;
          total_urls = (\<Sum>p \<in> dom indice. card (the (indice p)));
          promedio = (if num_palabras > 0 then real total_urls / real num_palabras else 0)
      in (num_palabras, num_urls_unicas, promedio))"

section \<open>Notions used in the statements\<close>

text \<open>The posting set of a word: the set stored under the key, empty for a missing key.\<close>

definition postings :: "indice \<Rightarrow> string \<Rightarrow> string set" where
  "postings indice p = (case indice p of None \<Rightarrow> {} | Some urls \<Rightarrow> urls)"

text \<open>The index with \<open>url\<close> added to the posting set of every word of \<open>ps\<close>, and nothing else changed.\<close>

definition con_url :: "string \<Rightarrow> string set \<Rightarrow> indice \<Rightarrow> indice" where
  "con_url url ps indice =
     (\<lambda>k. if k \<in> ps then Some (insert url (postings indice k)) else indice k)"

text \<open>The position of the first occurrence of a word in a sequence.\<close>

definition primera :: "string list \<Rightarrow> string \<Rightarrow> nat" where
  "primera ws w = length (takeWhile (\<lambda>x. x \<noteq> w) ws)"

text \<open>\<open>w\<close> is ranked before \<open>v\<close>: it is more frequent, or as frequent and first seen earlier.\<close>

definition antes :: "string list \<Rightarrow> string \<Rightarrow> string \<Rightarrow> bool" where
  "antes ws w v =
     (count_list ws v < count_list ws w
      \<or> (count_list ws v = count_list ws w \<and> primera ws w < primera ws v))"

text \<open>\<open>S\<close> is a choice of the \<open>n\<close> best ranked distinct words of \<open>ws\<close> (all of them when there are fewer): nothing left out is ranked before something chosen.\<close>

definition es_top :: "string list \<Rightarrow> nat \<Rightarrow> string set \<Rightarrow> bool" where
  "es_top ws n S =
     (S \<subseteq> set ws \<and> card S = min n (card (set ws))
      \<and> (\<forall>w \<in> S. \<forall>v \<in> set ws - S. antes ws w v))"

text \<open>The distinct words of a sequence, in the order of their first occurrence.\<close>

definition claves :: "string list \<Rightarrow> string list" where
  "claves ws = fold (\<lambda>w ks. if w \<in> set ks then ks else ks @ [w]) ws []"

text \<open>The items of the counter in the order in which \<open>most_common\<close> ranks them.\<close>

definition ordenadas :: "string list \<Rightarrow> (string \<times> nat) list" where
  "ordenadas ws = sort_key (\<lambda>kc. - int (snd kc)) (Counter ws)"

text \<open>The indices that calls of \<open>procesar_url_en_indice\<close> and of
  \<open>procesar_url_en_indice_top_n\<close> build from the empty index.\<close>

inductive alcanzable :: "indice \<Rightarrow> bool" where
  vacio: "alcanzable Map.empty"
| paso: "alcanzable indice \<Longrightarrow> procesar_url_en_indice url texto indice = Inr indice'
         \<Longrightarrow> alcanzable indice'"
| paso_top_n: "alcanzable indice
         \<Longrightarrow> procesar_url_en_indice_top_n url texto indice top_n = Inr indice'
         \<Longrightarrow> alcanzable indice'"

text \<open>The index of the worked example after its first document, and after its second.\<close>

definition indice_1 :: indice where
  "indice_1 = [''gato'' \<mapsto> {''url1''}, ''come'' \<mapsto> {''url1''}, ''pescado'' \<mapsto> {''url1''}]"

definition indice_2 :: indice where
  "indice_2 = [''gato'' \<mapsto> {''url1''}, ''come'' \<mapsto> {''url1'', ''url2''},
     ''pescado'' \<mapsto> {''url1''}, ''perro'' \<mapsto> {''url2''}, ''carne'' \<mapsto> {''url2''}]"

text \<open>The index that a store holds: every key with the content of its set object.\<close>

definition indice_de :: "memoria \<Rightarrow> indice" where
  "indice_de m = (\<lambda>p. map_option (conj m) (dic m p))"

text \<open>Every object of the dictionary is at an address in use.\<close>

definition bien_formada :: "memoria \<Rightarrow> bool" where
  "bien_formada m = (\<forall>p r. dic m p = Some r \<longrightarrow> r < libre m)"

text \<open>The set that a query returns, read in the store that it leaves.\<close>

definition valor :: "(py_error + nat) \<times> memoria \<Rightarrow> py_error + string set" where
  "valor X = (case fst X of Inl e \<Rightarrow> Inl e | Inr r \<Rightarrow> Inr (conj (snd X) r))"

text \<open>From \<open>m\<close> to \<open>m'\<close> the dictionary is the same and the objects in use in \<open>m\<close>, those of
  \<open>X\<close> apart, have the content they had.\<close>

definition marco :: "nat set \<Rightarrow> memoria \<Rightarrow> memoria \<Rightarrow> bool" where
  "marco X m m' =
     (dic m' = dic m \<and> libre m \<le> libre m' \<and> (\<forall>r < libre m. r \<notin> X \<longrightarrow> conj m' r = conj m r))"

text \<open>A store that holds \<open>indice_1\<close>, every posting set an object of its own.\<close>

definition memoria_1 :: memoria where
  "memoria_1 = \<lparr>dic = [''gato'' \<mapsto> 0, ''come'' \<mapsto> 1, ''pescado'' \<mapsto> 2],
                conj = (\<lambda>r. if r < 3 then {''url1''} else {}), libre = 3\<rparr>"

section \<open>Characters\<close>

lemma code_less: "code c < 256"
  unfolding code_def by (metis of_char_mod_256 mod_less_divisor zero_less_numeral)

lemma code_char_of: "code (char_of (n::nat)) = n mod 256"
  by (simp add: code_def)

lemma lower_char_not_upper: "\<not> is_upper_char (lower_char c)"
  using code_less [of c]
  by (auto simp add: lower_char_def is_upper_char_def code_char_of)

lemma lower_char_fixed: "\<not> is_upper_char c \<Longrightarrow> lower_char c = c"
  by (simp add: lower_char_def)

lemma alpha_not_space: "isalpha_char c \<Longrightarrow> \<not> isspace_char c"
  by (auto simp add: isalpha_char_def isspace_char_def)


lemma punct_not_alpha: "list_all (\<lambda>c. \<not> isalpha_char c) PUNTUACION"
  by code_simp

lemma space_not_alpha: "\<not> isalpha_char (CHR '' '')"
  by code_simp

section \<open>Splitting and normalizing\<close>

lemma split_from_member:
  "w \<in> set (split_from cur s) \<Longrightarrow> w \<noteq> [] \<and> set w \<subseteq> set cur \<union> set s"
proof (induction s arbitrary: cur)
  case Nil
  then show ?case by (auto split: if_splits)
next
  case (Cons c cs)
  show ?case
  proof (cases "isspace_char c")
    case True
    with Cons.prems have "w = rev cur \<and> cur \<noteq> [] \<or> w \<in> set (split_from [] cs)"
      by (auto split: if_splits)
    then show ?thesis using Cons.IH [of "[]"] by auto
  next
    case False
    with Cons.prems have "w \<in> set (split_from (c # cur) cs)" by simp
    then show ?thesis using Cons.IH [of "c # cur"] by auto
  qed
qed

lemma split_from_one_word:
  "\<forall>c \<in> set s. \<not> isspace_char c \<Longrightarrow> cur \<noteq> [] \<or> s \<noteq> [] \<Longrightarrow>
   split_from cur s = [rev cur @ s]"
  by (induction s arbitrary: cur) auto

lemma split_member: "w \<in> set (split s) \<Longrightarrow> w \<noteq> [] \<and> set w \<subseteq> set s"
  using split_from_member [of w "[]" s] by (simp add: split_def)

lemma split_one_word: "\<forall>c \<in> set s. \<not> isspace_char c \<Longrightarrow> s \<noteq> [] \<Longrightarrow> split s = [s]"
  using split_from_one_word [of s "[]"] by (simp add: split_def)

lemma set_quitar: "set (quitar i t) \<subseteq> insert (CHR '' '') (set t)"
  by (auto simp add: quitar_def replace_def)

lemma set_fold_quitar: "set (fold quitar ps t) \<subseteq> insert (CHR '' '') (set t)"
proof (induction ps arbitrary: t)
  case Nil
  show ?case by auto
next
  case (Cons i ps)
  have "set (fold quitar ps (quitar i t)) \<subseteq> insert (CHR '' '') (set (quitar i t))"
    by (rule Cons.IH)
  with set_quitar [of i t] show ?case by auto
qed

lemma fold_quitar_none: "set ps \<inter> set t = {} \<Longrightarrow> fold quitar ps t = t"
  by (induction ps arbitrary: t) (auto simp add: quitar_def)

lemma alpha_not_punct: "isalpha_char c \<Longrightarrow> c \<notin> set PUNTUACION"
  using punct_not_alpha by (auto simp add: list_all_iff)

lemma token_chars:
  assumes "p \<in> set (normalizar_texto t)"
  shows "p \<noteq> []" and "p \<notin> STOP_WORDS" and "isalpha p"
    and "\<forall>c \<in> set p. isalpha_char c \<and> \<not> is_upper_char c"
proof -
  let ?t2 = "fold quitar PUNTUACION (lower t)"
  from assms have mem: "p \<in> set (split ?t2)" and stop: "p \<notin> STOP_WORDS" and al: "isalpha p"
    by (auto simp add: normalizar_texto_def Let_def)
  show "p \<noteq> []" using al by (simp add: isalpha_def)
  show "p \<notin> STOP_WORDS" by (rule stop)
  show "isalpha p" by (rule al)
  show "\<forall>c \<in> set p. isalpha_char c \<and> \<not> is_upper_char c"
  proof
    fix c assume c: "c \<in> set p"
    from al c have a: "isalpha_char c" by (simp add: isalpha_def list_all_iff)
    from split_member [OF mem] c have "c \<in> set ?t2" by auto
    with set_fold_quitar [of PUNTUACION "lower t"]
    have "c = CHR '' '' \<or> c \<in> set (lower t)" by auto
    with a space_not_alpha have "c \<in> set (lower t)" by auto
    then obtain d where "c = lower_char d" by (auto simp add: lower_def)
    with lower_char_not_upper have "\<not> is_upper_char c" by simp
    with a show "isalpha_char c \<and> \<not> is_upper_char c" by simp
  qed
qed

lemma normalizar_word:
  assumes ne: "p \<noteq> []" and st: "p \<notin> STOP_WORDS"
    and ch: "\<forall>c \<in> set p. isalpha_char c \<and> \<not> is_upper_char c"
  shows "normalizar_texto p = [p]"
proof -
  from ch have "map lower_char p = p"
    by (intro map_idI) (simp add: lower_char_fixed)
  then have l: "lower p = p" by (simp add: lower_def)
  from ch have "set PUNTUACION \<inter> set p = {}" using alpha_not_punct by auto
  then have q: "fold quitar PUNTUACION p = p" by (rule fold_quitar_none)
  from ch have "\<forall>c \<in> set p. \<not> isspace_char c" using alpha_not_space by auto
  then have s: "split p = [p]" using ne by (rule split_one_word)
  from ch ne have "isalpha p" by (simp add: isalpha_def list_all_iff)
  with st l q s show ?thesis by (simp add: normalizar_texto_def)
qed

lemma normalizar_token: "p \<in> set (normalizar_texto t) \<Longrightarrow> normalizar_texto p = [p]"
  using token_chars [of p t] normalizar_word [of p] by blast

section \<open>Queries and the index builder on tokens\<close>

lemma buscar_palabra_simple_token:
  "normalizar_texto p = [p] \<Longrightarrow> buscar_palabra_simple p indice = Inr (postings indice p)"
  by (simp add: buscar_palabra_simple_def postings_def split: option.splits)

lemma unir_tokens:
  "\<forall>p \<in> set ps. normalizar_texto p = [p] \<Longrightarrow>
   unir ps indice res = Inr (res \<union> (\<Union>p \<in> set ps. postings indice p))"
  by (induction ps arbitrary: res) (auto simp add: buscar_palabra_simple_token)

lemma intersecar_tokens:
  "\<forall>p \<in> set ps. normalizar_texto p = [p] \<Longrightarrow>
   \<exists>r. intersecar ps indice res = Inr r \<and> r \<subseteq> res"
proof (induction ps arbitrary: res)
  case Nil
  show ?case by simp
next
  case (Cons p ps)
  then have p: "buscar_palabra_simple p indice = Inr (postings indice p)"
    by (simp add: buscar_palabra_simple_token)
  show ?case
  proof (cases "res \<inter> postings indice p = {}")
    case True
    with p show ?thesis by simp
  next
    case False
    from Cons.prems have "\<forall>q \<in> set ps. normalizar_texto q = [q]" by simp
    from Cons.IH [OF this, of "res \<inter> postings indice p"]
    obtain r where "intersecar ps indice (res \<inter> postings indice p) = Inr r"
      and "r \<subseteq> res \<inter> postings indice p" by blast
    with p False show ?thesis by (simp add: Let_def)
  qed
qed

lemma indexar_eq: "indexar url p indice = Inr (indice(p \<mapsto> insert url (postings indice p)))"
  by (auto simp add: indexar_def postings_def Let_def split: option.splits)

lemma indexar_top_eq: "indexar_top url p indice = indexar url p indice"
  by (auto simp add: indexar_def indexar_top_def Let_def split: option.splits)

lemma indexar_todas_eq: "indexar_todas url ps indice = Inr (con_url url (set ps) indice)"
proof (induction ps arbitrary: indice)
  case Nil
  show ?case by (simp add: con_url_def)
next
  case (Cons p ps)
  have eq: "con_url url (set ps) (indice(p \<mapsto> insert url (postings indice p)))
        = con_url url (set (p # ps)) indice"
    by (rule ext) (auto simp add: con_url_def postings_def)
  show ?case by (simp only: indexar_todas.simps indexar_eq sum.case Cons.IH eq)
qed

lemma indexar_todas_top_eq: "indexar_todas_top url ps indice = indexar_todas url ps indice"
  by (induction ps arbitrary: indice) (simp_all add: indexar_top_eq indexar_eq)

section \<open>Counting and ranking\<close>

lemma claves_Nil: "claves [] = []"
  by (simp add: claves_def)

lemma claves_snoc:
  "claves (ws @ [w]) = (if w \<in> set (claves ws) then claves ws else claves ws @ [w])"
  by (simp add: claves_def)

lemma set_claves: "set (claves ws) = set ws"
proof (induction ws rule: rev_induct)
  case Nil
  show ?case by (simp add: claves_Nil)
next
  case (snoc w ws)
  then show ?case by (auto simp add: claves_snoc)
qed

lemma distinct_claves: "distinct (claves ws)"
proof (induction ws rule: rev_induct)
  case Nil
  show ?case by (simp add: claves_Nil)
next
  case (snoc w ws)
  then show ?case by (simp add: claves_snoc)
qed

lemma primera_less: "k \<in> set ws \<Longrightarrow> primera ws k < length ws"
  unfolding primera_def by (induction ws) auto

lemma primera_snoc_old: "k \<in> set ws \<Longrightarrow> primera (ws @ [w]) k = primera ws k"
  by (simp add: primera_def)

lemma primera_snoc_new: "w \<notin> set ws \<Longrightarrow> primera (ws @ [w]) w = length ws"
proof -
  assume "w \<notin> set ws"
  then have "takeWhile (\<lambda>x. x \<noteq> w) (ws @ [w]) = ws @ takeWhile (\<lambda>x. x \<noteq> w) [w]"
    by (intro takeWhile_append2) auto
  then show ?thesis by (simp add: primera_def)
qed

lemma claves_order: "sorted_wrt (\<lambda>a b. primera ws a < primera ws b) (claves ws)"
proof (induction ws rule: rev_induct)
  case Nil
  show ?case by (simp add: claves_Nil)
next
  case (snoc w ws)
  have old: "sorted_wrt (\<lambda>a b. primera (ws @ [w]) a < primera (ws @ [w]) b) (claves ws)"
    using snoc.IH
    by (rule sorted_wrt_mono_rel [rotated]) (simp add: set_claves primera_snoc_old)
  show ?case
  proof (cases "w \<in> set ws")
    case True
    with old show ?thesis by (simp add: claves_snoc set_claves)
  next
    case False
    with old show ?thesis
      by (simp add: claves_snoc set_claves sorted_wrt_append primera_snoc_old
          primera_snoc_new primera_less)
  qed
qed

lemma contar_map:
  "distinct ks \<Longrightarrow>
   contar w (map (\<lambda>k. (k, f k)) ks) =
     (if w \<in> set ks then map (\<lambda>k. (k, (f(w := f w + 1)) k)) ks
      else map (\<lambda>k. (k, f k)) ks @ [(w, 1)])"
  by (induction ks) auto

lemma Counter_snoc: "Counter (ws @ [w]) = contar w (Counter ws)"
  by (simp add: Counter_def)

lemma Counter_eq: "Counter ws = map (\<lambda>k. (k, count_list ws k)) (claves ws)"
proof (induction ws rule: rev_induct)
  case Nil
  show ?case by (simp add: Counter_def claves_Nil)
next
  case (snoc w ws)
  show ?case
  proof (cases "w \<in> set ws")
    case True
    have "map (\<lambda>k. (k, ((count_list ws)(w := count_list ws w + 1)) k)) (claves ws)
          = map (\<lambda>k. (k, count_list (ws @ [w]) k)) (claves ws)"
      by (rule map_cong) auto
    with True show ?thesis
      by (simp add: Counter_snoc snoc.IH contar_map distinct_claves set_claves claves_snoc)
  next
    case False
    then have "count_list ws w = 0" by (simp add: count_list_0_iff)
    moreover have "map (\<lambda>k. (k, count_list ws k)) (claves ws)
          = map (\<lambda>k. (k, count_list (ws @ [w]) k)) (claves ws)"
      using False by (intro map_cong) (auto simp add: set_claves)
    ultimately show ?thesis using False
      by (simp add: Counter_snoc snoc.IH contar_map distinct_claves set_claves claves_snoc)
  qed
qed

lemma insort_lex:
  fixes key :: "'a \<Rightarrow> int"
  assumes "sorted_wrt (\<lambda>a b. key a < key b \<or> (key a = key b \<and> R a b)) ys"
    and "\<forall>y \<in> set ys. R x y"
  shows "sorted_wrt (\<lambda>a b. key a < key b \<or> (key a = key b \<and> R a b)) (insort_key key x ys)"
  using assms
proof (induction ys)
  case Nil
  show ?case by simp
next
  case (Cons y ys)
  show ?case
  proof (cases "key x \<le> key y")
    case True
    with Cons.prems show ?thesis by (auto simp add: less_le)
  next
    case False
    with Cons show ?thesis by (auto simp add: set_insort_key)
  qed
qed

lemma sort_key_lex:
  fixes key :: "'a \<Rightarrow> int"
  assumes "sorted_wrt R xs"
  shows "sorted_wrt (\<lambda>a b. key a < key b \<or> (key a = key b \<and> R a b)) (sort_key key xs)"
  using assms
proof (induction xs)
  case Nil
  show ?case by simp
next
  case (Cons x xs)
  then show ?case by (simp add: insort_lex)
qed

section \<open>The ranking of \<open>most_common\<close>\<close>

lemma length_claves: "length (claves ws) = card (set ws)"
  using distinct_card [OF distinct_claves, of ws] by (simp add: set_claves)

lemma set_Counter: "set (Counter ws) = (\<lambda>k. (k, count_list ws k)) ` set ws"
  by (simp add: Counter_eq set_claves)

lemma distinct_Counter: "distinct (Counter ws)"
  by (simp add: Counter_eq distinct_map distinct_claves inj_on_def)

lemma Counter_order:
  "sorted_wrt (\<lambda>a b. primera ws (fst a) < primera ws (fst b)) (Counter ws)"
  using claves_order [of ws] by (simp add: Counter_eq sorted_wrt_map)

lemma set_ordenadas: "set (ordenadas ws) = (\<lambda>k. (k, count_list ws k)) ` set ws"
  by (simp add: ordenadas_def set_Counter)

lemma length_ordenadas: "length (ordenadas ws) = card (set ws)"
  by (simp add: ordenadas_def Counter_eq length_claves)

lemma distinct_fst_ordenadas: "distinct (map fst (ordenadas ws))"
proof -
  have "distinct (ordenadas ws)" by (simp add: ordenadas_def distinct_Counter)
  moreover have "inj_on fst (set (ordenadas ws))"
    by (auto simp add: set_ordenadas inj_on_def)
  ultimately show ?thesis by (simp add: distinct_map)
qed

lemma ordenadas_antes:
  "sorted_wrt (\<lambda>a b. antes ws (fst a) (fst b)) (ordenadas ws)"
proof -
  let ?key = "\<lambda>kc :: string \<times> nat. - int (snd kc)"
  let ?R = "\<lambda>a b :: string \<times> nat. primera ws (fst a) < primera ws (fst b)"
  have "sorted_wrt (\<lambda>a b. ?key a < ?key b \<or> (?key a = ?key b \<and> ?R a b)) (ordenadas ws)"
    unfolding ordenadas_def using Counter_order by (rule sort_key_lex)
  then show ?thesis
  proof (rule sorted_wrt_mono_rel [rotated])
    fix a b assume a: "a \<in> set (ordenadas ws)" and b: "b \<in> set (ordenadas ws)"
      and q: "?key a < ?key b \<or> (?key a = ?key b \<and> ?R a b)"
    from a have sa: "snd a = count_list ws (fst a)" by (auto simp add: set_ordenadas)
    from b have sb: "snd b = count_list ws (fst b)" by (auto simp add: set_ordenadas)
    from q sa sb show "antes ws (fst a) (fst b)" by (auto simp add: antes_def)
  qed
qed

lemma top_palabras_eq: "top_palabras ws n = map fst (take (nat n) (ordenadas ws))"
  by (simp add: top_palabras_def most_common_def ordenadas_def)

lemma es_top_top_palabras: "es_top ws (nat n) (set (top_palabras ws n))"
proof -
  let ?S = "ordenadas ws"
  let ?T = "take (nat n) ?S" and ?D = "drop (nat n) ?S"
  have split: "?S = ?T @ ?D" by simp
  have fst_S: "fst ` set ?S = set ws" by (force simp add: set_ordenadas)
  have sub: "set (map fst ?T) \<subseteq> set ws"
    using set_take_subset [of "nat n" ?S] fst_S by auto
  have "distinct (map fst ?T)"
    using distinct_fst_ordenadas [of ws] by (simp add: take_map [symmetric])
  then have "card (set (map fst ?T)) = length (map fst ?T)" by (rule distinct_card)
  then have card: "card (set (map fst ?T)) = min (nat n) (card (set ws))"
    by (simp add: length_ordenadas min.commute)
  have rank: "antes ws w v" if w: "w \<in> set (map fst ?T)" and v: "v \<in> set ws - set (map fst ?T)"
    for w v
  proof -
    from w obtain a where a: "a \<in> set ?T" "fst a = w" by auto
    from v have "v \<in> fst ` set ?S" unfolding fst_S by simp
    then obtain b where b: "b \<in> set ?S" "fst b = v" by auto
    from v b have "b \<notin> set ?T" by auto
    with b(1) have bD: "b \<in> set ?D" using split by (metis Un_iff set_append)
    have "sorted_wrt (\<lambda>a b. antes ws (fst a) (fst b)) (?T @ ?D)"
      using ordenadas_antes [of ws] by simp
    then have "\<forall>x \<in> set ?T. \<forall>y \<in> set ?D. antes ws (fst x) (fst y)"
      unfolding sorted_wrt_append by blast
    with a bD b(2) show ?thesis by auto
  qed
  show ?thesis
    unfolding es_top_def top_palabras_eq using sub card rank by blast
qed

lemma antes_asym: "antes ws w v \<Longrightarrow> \<not> antes ws v w"
  by (auto simp add: antes_def)

lemma es_top_unique:
  assumes S: "es_top ws n S" and S': "es_top ws n S'"
  shows "S = S'"
proof -
  have fin: "finite S" "finite S'"
    using S S' by (auto simp add: es_top_def intro: finite_subset)
  have card: "card S = card S'" using S S' by (simp add: es_top_def)
  have "S \<subseteq> S'"
  proof (rule ccontr)
    assume "\<not> S \<subseteq> S'"
    then obtain w where w: "w \<in> S" "w \<notin> S'" by auto
    have "\<not> S' \<subseteq> S"
    proof
      assume "S' \<subseteq> S"
      with w have "S' \<subset> S" by auto
      with fin have "card S' < card S" by (simp add: psubset_card_mono)
      with card show False by simp
    qed
    then obtain v where v: "v \<in> S'" "v \<notin> S" by auto
    from S w v S' have "antes ws w v" "antes ws v w"
      by (auto simp add: es_top_def)
    then show False using antes_asym by blast
  qed
  with fin card show ?thesis by (simp add: card_subset_eq)
qed

lemma top_palabras_all:
  assumes "int (card (set ws)) \<le> n"
  shows "set (top_palabras ws n) = set ws"
proof -
  from assms have "length (ordenadas ws) \<le> nat n" by (simp add: length_ordenadas)
  then have "take (nat n) (ordenadas ws) = ordenadas ws" by simp
  then have "set (top_palabras ws n) = fst ` set (ordenadas ws)"
    by (simp add: top_palabras_eq)
  also have "\<dots> = set ws" by (force simp add: set_ordenadas)
  finally show ?thesis .
qed

lemma procesar_top_eq:
  "procesar_url_en_indice_top_n url texto indice top_n =
     Inr (con_url url (set (top_palabras (normalizar_texto texto) top_n)) indice)"
  by (simp add: procesar_url_en_indice_top_n_def indexar_todas_top_eq indexar_todas_eq)

section \<open>The normalizer on every code point, and on Latin-1\<close>




















section \<open>The store under the queries\<close>

lemma marco_refl: "marco X m m"
  by (simp add: marco_def)

lemma marco_trans: "marco X m m' \<Longrightarrow> marco X m' m'' \<Longrightarrow> marco X m m''"
  by (simp add: marco_def)

lemma marco_mono: "marco X m m' \<Longrightarrow> X \<subseteq> Y \<Longrightarrow> marco Y m m'"
  by (auto simp add: marco_def)

lemma marco_nuevo: "marco X m (snd (nuevo s m))"
  by (simp add: marco_def nuevo_def)

lemma marco_simple: "marco X m (snd (buscar_palabra_simple_m p m))"
  by (simp add: buscar_palabra_simple_m_def nuevo_def marco_def split: list.splits option.splits)

lemma marco_update: "marco {res} m (update res otro m)"
  by (simp add: marco_def update_def)

lemma marco_unir: "marco {res} m (snd (unir_m ps res m))"
proof (induction ps arbitrary: m)
  case Nil
  show ?case by (simp add: marco_refl)
next
  case (Cons p ps)
  obtain a m' where s: "buscar_palabra_simple_m p m = (a, m')" by (cases "buscar_palabra_simple_m p m")
  with marco_simple [of "{res}" m p] have 1: "marco {res} m m'" by simp
  show ?case
  proof (cases a)
    case (Inl e)
    with s 1 show ?thesis by simp
  next
    case (Inr r)
    have 2: "marco {res} m' (update res r m')"
      by (rule marco_update)
    have 3: "marco {res} (update res r m') (snd (unir_m ps res (update res r m')))"
      by (rule Cons.IH)
    from marco_trans [OF marco_trans [OF 1 2] 3] s Inr show ?thesis by simp
  qed
qed

lemma marco_or: "marco {} m (snd (buscar_palabras_or_m frase m))"
proof -
  let ?m1 = "m\<lparr>conj := (conj m)(libre m := {}), libre := Suc (libre m)\<rparr>"
  have n: "nuevo {} m = (libre m, ?m1)" by (simp add: nuevo_def)
  have 1: "marco {} m ?m1" using marco_nuevo [of "{}" m "{}"] unfolding n by simp
  have 2: "marco {libre m} ?m1 (snd (unir_m (normalizar_texto frase) (libre m) ?m1))"
    by (rule marco_unir)
  have "buscar_palabras_or_m frase m = unir_m (normalizar_texto frase) (libre m) ?m1"
    unfolding buscar_palabras_or_m_def n by simp
  with 1 2 show ?thesis by (auto simp add: marco_def)
qed

lemma marco_intersecar: "marco {} m (snd (intersecar_m ps r m))"
proof (induction ps arbitrary: r m)
  case Nil
  show ?case by (simp add: marco_refl)
next
  case (Cons p ps)
  obtain a m' where s: "buscar_palabra_simple_m p m = (a, m')" by (cases "buscar_palabra_simple_m p m")
  with marco_simple [of "{}" m p] have 1: "marco {} m m'" by simp
  show ?case
  proof (cases a)
    case (Inl e)
    with s 1 show ?thesis by simp
  next
    case (Inr u)
    define m2 where "m2 = m'\<lparr>conj := (conj m')(libre m' := conj m' r \<inter> conj m' u),
                              libre := Suc (libre m')\<rparr>"
    have i: "intersection r u m' = (libre m', m2)"
      by (simp add: m2_def intersection_def nuevo_def)
    have 2: "marco {} m' m2"
      using marco_nuevo [of "{}" m' "conj m' r \<inter> conj m' u"] by (simp add: m2_def nuevo_def)
    have 3: "marco {} m2 (snd (intersecar_m ps (libre m') m2))"
      by (rule Cons.IH)
    from marco_trans [OF 1 2] marco_trans [OF marco_trans [OF 1 2] 3] s Inr i show ?thesis
      by simp
  qed
qed

lemma marco_and: "marco {} m (snd (buscar_palabras_and_m frase m))"
proof (cases "normalizar_texto frase")
  case Nil
  then show ?thesis
    by (simp add: buscar_palabras_and_m_def nuevo_def marco_def)
next
  case (Cons p ps)
  obtain a m' where s: "buscar_palabra_simple_m p m = (a, m')" by (cases "buscar_palabra_simple_m p m")
  with marco_simple [of "{}" m p] have 1: "marco {} m m'" by simp
  show ?thesis
  proof (cases a)
    case (Inl e)
    with s 1 Cons show ?thesis by (simp add: buscar_palabras_and_m_def)
  next
    case (Inr r)
    from marco_trans [OF 1 marco_intersecar [of m' ps r]] s Inr Cons show ?thesis
      by (simp add: buscar_palabras_and_m_def)
  qed
qed

lemma marco_indice:
  assumes "bien_formada m" and "marco {} m m'"
  shows "dic m' = dic m \<and> indice_de m' = indice_de m \<and> bien_formada m'"
proof -
  from assms(2) have d: "dic m' = dic m" and l: "libre m \<le> libre m'"
    and c: "\<And>r. r < libre m \<Longrightarrow> conj m' r = conj m r"
    by (simp_all add: marco_def)
  have "indice_de m' p = indice_de m p" for p
  proof (cases "dic m p")
    case None
    with d show ?thesis by (simp add: indice_de_def)
  next
    case (Some r)
    with assms(1) have "r < libre m" by (simp add: bien_formada_def)
    with c Some d show ?thesis by (simp add: indice_de_def)
  qed
  then have "indice_de m' = indice_de m" by (rule ext)
  moreover from assms(1) d l have "bien_formada m'" by (fastforce simp add: bien_formada_def)
  ultimately show ?thesis using d by simp
qed

lemma valor_simple:
  "valor (buscar_palabra_simple_m p m) = buscar_palabra_simple p (indice_de m)"
  by (simp add: valor_def buscar_palabra_simple_m_def buscar_palabra_simple_def indice_de_def
      nuevo_def split: list.splits option.splits)

lemma simple_ref:
  "bien_formada m \<Longrightarrow> buscar_palabra_simple_m p m = (Inr r, m') \<Longrightarrow> r < libre m'"
  by (auto simp add: bien_formada_def buscar_palabra_simple_m_def nuevo_def
      split: list.splits option.splits)

lemma valor_unir:
  assumes "bien_formada m" and "res < libre m" and "\<forall>p. dic m p \<noteq> Some res"
  shows "valor (unir_m ps res m) = unir ps (indice_de m) (conj m res)"
  using assms
proof (induction ps arbitrary: m)
  case Nil
  show ?case by (simp add: valor_def)
next
  case (Cons p ps)
  obtain a m' where s: "buscar_palabra_simple_m p m = (a, m')"
    by (cases "buscar_palabra_simple_m p m")
  with marco_simple [of "{}" m p] have f: "marco {} m m'" by simp
  from marco_indice [OF Cons.prems(1) f]
  have d: "dic m' = dic m" and i: "indice_de m' = indice_de m" and b: "bien_formada m'"
    by simp_all
  from valor_simple [of p m] s
  have v: "buscar_palabra_simple p (indice_de m) = valor (a, m')" by simp
  show ?case
  proof (cases a)
    case (Inl e)
    with s v show ?thesis by (simp add: valor_def)
  next
    case (Inr r)
    define m2 where "m2 = update res r m'"
    from f Cons.prems(2) have c: "conj m' res = conj m res" and l: "res < libre m'"
      by (simp_all add: marco_def)
    have b2: "bien_formada m2" using b by (simp add: m2_def update_def bien_formada_def)
    have l2: "res < libre m2" using l by (simp add: m2_def update_def)
    have d2: "\<forall>p. dic m2 p \<noteq> Some res"
      using Cons.prems(3) d by (simp add: m2_def update_def)
    have "indice_de m2 q = indice_de m' q" for q
      using Cons.prems(3) d by (cases "dic m q") (auto simp add: m2_def update_def indice_de_def)
    then have i2: "indice_de m2 = indice_de m" using i by (simp add: fun_eq_iff)
    have c2: "conj m2 res = conj m res \<union> conj m' r" using c by (simp add: m2_def update_def)
    from Cons.IH [OF b2 l2 d2]
    have "valor (unir_m ps res m2) = unir ps (indice_de m) (conj m res \<union> conj m' r)"
      unfolding i2 c2 .
    with s v Inr show ?thesis by (simp add: valor_def m2_def)
  qed
qed

lemma valor_or:
  assumes "bien_formada m"
  shows "valor (buscar_palabras_or_m frase m) = buscar_palabras_or frase (indice_de m)"
proof -
  define m1 where "m1 = m\<lparr>conj := (conj m)(libre m := {}), libre := Suc (libre m)\<rparr>"
  have n: "nuevo {} m = (libre m, m1)" by (simp add: nuevo_def m1_def)
  have b: "bien_formada m1" using assms by (fastforce simp add: m1_def bien_formada_def)
  have l: "libre m < libre m1" by (simp add: m1_def)
  have d: "\<forall>p. dic m1 p \<noteq> Some (libre m)"
    using assms by (fastforce simp add: m1_def bien_formada_def)
  have "indice_de m1 q = indice_de m q" for q
    using assms by (cases "dic m q") (auto simp add: m1_def indice_de_def bien_formada_def)
  then have i: "indice_de m1 = indice_de m" by (simp add: fun_eq_iff)
  have c: "conj m1 (libre m) = {}" by (simp add: m1_def)
  from valor_unir [OF b l d, of "normalizar_texto frase"] show ?thesis
    unfolding i c by (simp add: buscar_palabras_or_m_def n buscar_palabras_or_def)
qed

lemma valor_intersecar:
  assumes "bien_formada m" and "r < libre m"
  shows "valor (intersecar_m ps r m) = intersecar ps (indice_de m) (conj m r)"
  using assms
proof (induction ps arbitrary: r m)
  case Nil
  show ?case by (simp add: valor_def)
next
  case (Cons p ps)
  obtain a m' where s: "buscar_palabra_simple_m p m = (a, m')"
    by (cases "buscar_palabra_simple_m p m")
  with marco_simple [of "{}" m p] have f: "marco {} m m'" by simp
  from marco_indice [OF Cons.prems(1) f]
  have i: "indice_de m' = indice_de m" and b: "bien_formada m'"
    by simp_all
  from valor_simple [of p m] s
  have v: "buscar_palabra_simple p (indice_de m) = valor (a, m')" by simp
  show ?case
  proof (cases a)
    case (Inl e)
    with s v show ?thesis by (simp add: valor_def)
  next
    case (Inr u)
    define m2 where "m2 = m'\<lparr>conj := (conj m')(libre m' := conj m' r \<inter> conj m' u),
                              libre := Suc (libre m')\<rparr>"
    have n: "intersection r u m' = (libre m', m2)"
      by (simp add: m2_def intersection_def nuevo_def)
    from f Cons.prems(2) have c: "conj m' r = conj m r"
      by (simp add: marco_def)
    have f2: "marco {} m' m2" by (simp add: marco_def m2_def)
    from marco_indice [OF b f2]
    have i2: "indice_de m2 = indice_de m" and b2: "bien_formada m2" using i by simp_all
    have l2: "libre m' < libre m2" by (simp add: m2_def)
    have c2: "conj m2 (libre m') = conj m r \<inter> conj m' u" using c by (simp add: m2_def)
    from Cons.IH [OF b2 l2]
    have "valor (intersecar_m ps (libre m') m2)
          = intersecar ps (indice_de m) (conj m r \<inter> conj m' u)"
      unfolding i2 c2 .
    with s v Inr n c2 show ?thesis by (simp add: valor_def)
  qed
qed

lemma valor_and:
  assumes "bien_formada m"
  shows "valor (buscar_palabras_and_m frase m) = buscar_palabras_and frase (indice_de m)"
proof (cases "normalizar_texto frase")
  case Nil
  then show ?thesis
    by (simp add: buscar_palabras_and_m_def buscar_palabras_and_def nuevo_def valor_def)
next
  case (Cons p ps)
  obtain a m' where s: "buscar_palabra_simple_m p m = (a, m')"
    by (cases "buscar_palabra_simple_m p m")
  with marco_simple [of "{}" m p] have f: "marco {} m m'" by simp
  from marco_indice [OF assms f]
  have i: "indice_de m' = indice_de m" and b: "bien_formada m'"
    by simp_all
  from valor_simple [of p m] s
  have v: "buscar_palabra_simple p (indice_de m) = valor (a, m')" by simp
  show ?thesis
  proof (cases a)
    case (Inl e)
    with s v Cons show ?thesis
      by (simp add: buscar_palabras_and_m_def buscar_palabras_and_def valor_def)
  next
    case (Inr r)
    from simple_ref [OF assms] s Inr have "r < libre m'" by simp
    from valor_intersecar [OF b this, of ps] s v Inr Cons show ?thesis
      unfolding i by (simp add: buscar_palabras_and_m_def buscar_palabras_and_def valor_def)
  qed
qed

lemma indice_en_memoria:
  "finite (dom I) \<Longrightarrow> \<exists>m. bien_formada m \<and> indice_de m = I"
proof (induction "dom I" arbitrary: I rule: finite_induct)
  case empty
  then have "dom I = {}" by simp
  then have "I = Map.empty" by simp
  then have "bien_formada \<lparr>dic = Map.empty, conj = (\<lambda>r. {}), libre = 0\<rparr>
    \<and> indice_de \<lparr>dic = Map.empty, conj = (\<lambda>r. {}), libre = 0\<rparr> = I"
    by (simp add: bien_formada_def indice_de_def)
  then show ?case by blast
next
  case (insert k A)
  from insert.hyps(2,4) have "A = dom (I(k := None))" by auto
  from insert.hyps(3) [OF this] obtain m
    where b: "bien_formada m" and i: "indice_de m = I(k := None)" by blast
  from insert.hyps(4) obtain s where s: "I k = Some s" by auto
  define m' where "m' = m\<lparr>dic := (dic m)(k \<mapsto> libre m), conj := (conj m)(libre m := s),
                            libre := Suc (libre m)\<rparr>"
  have "bien_formada m'"
    using b by (fastforce simp add: m'_def bien_formada_def)
  moreover have "indice_de m' q = I q" for q
  proof (cases "q = k")
    case True
    with s show ?thesis by (simp add: m'_def indice_de_def)
  next
    case False
    with i have e: "indice_de m q = I q" by (simp add: fun_eq_iff)
    show ?thesis
    proof (cases "dic m q")
      case None
      with e False show ?thesis by (simp add: m'_def indice_de_def)
    next
      case (Some r)
      with b have "r < libre m" by (simp add: bien_formada_def)
      with e False Some show ?thesis by (simp add: m'_def indice_de_def)
    qed
  qed
  then have "indice_de m' = I" by (rule ext)
  ultimately show ?case by blast
qed

section \<open>The claims\<close>

lemma normalizar_el: "normalizar_texto ''el'' = []"
  by code_simp

lemma normalizar_vacio: "normalizar_texto [] = []"
  by code_simp

lemma normalizar_signos: "normalizar_texto ''!!'' = []"
  by code_simp


lemma normalizar_gato: "normalizar_texto ''el gato come pescado'' = [''gato'', ''come'', ''pescado'']"
  by code_simp

lemma normalizar_perro: "normalizar_texto ''el perro come carne'' = [''perro'', ''come'', ''carne'']"
  by code_simp

lemma normalizar_ranking:
  "normalizar_texto ''perro gato gato perro raton'' =
     [''perro'', ''gato'', ''gato'', ''perro'', ''raton'']"
  by code_simp

lemma normalizar_come: "normalizar_texto ''come'' = [''come'']"
  by code_simp

lemma normalizar_gato_carne: "normalizar_texto ''gato carne'' = [''gato'', ''carne'']"
  by code_simp

lemma normalizar_una_gato: "normalizar_texto ''gato'' = [''gato'']"
  by code_simp

lemma normalizar_una_carne: "normalizar_texto ''carne'' = [''carne'']"
  by code_simp

text \<open>
  C1. The claim: for an input whose normalization yields no tokens, \<open>buscar_palabra_simple\<close>
  returns the empty set and does not fail. The function takes element 0 of the normalized
  list without looking at its length: on the stop word \<open>el\<close>, on the empty string and on
  a string of punctuation the call raises \<open>IndexError\<close>, whatever the index holds.
\<close>

theorem buscar_palabra_simple_sin_tokens:
  "buscar_palabra_simple ''el'' indice = Inl IndexError
   \<and> buscar_palabra_simple [] indice = Inl IndexError
   \<and> buscar_palabra_simple ''!!'' indice = Inl IndexError"
  by (simp add: buscar_palabra_simple_def normalizar_el normalizar_vacio normalizar_signos)




text \<open>
  C5. After \<open>procesar_url_en_indice url texto indice\<close>, which always returns, \<open>url\<close> is
  in the posting set of every token of \<open>normalizar_texto texto\<close>.
\<close>

theorem procesar_url_en_indice_postings:
  "\<exists>indice'. procesar_url_en_indice url texto indice = Inr indice' \<and>
     (\<forall>p \<in> set (normalizar_texto texto). \<exists>urls. indice' p = Some urls \<and> url \<in> urls)"
  by (simp add: procesar_url_en_indice_def indexar_todas_eq con_url_def)

theorem procesar_url_en_indice_postings_witness:
  "\<exists>indice'. procesar_url_en_indice ''url1'' ''el gato come pescado'' Map.empty = Inr indice' \<and>
     (\<exists>urls. indice' ''gato'' = Some urls \<and> ''url1'' \<in> urls) \<and>
     (\<exists>urls. indice' ''come'' = Some urls \<and> ''url1'' \<in> urls) \<and>
     (\<exists>urls. indice' ''pescado'' = Some urls \<and> ''url1'' \<in> urls)"
  using procesar_url_en_indice_postings [of "''url1''" "''el gato come pescado''" Map.empty]
  unfolding normalizar_gato by simp

text \<open>
  C6. Indexing the same pair of \<open>url\<close> and \<open>texto\<close> a second time gives the index that the
  first call gave, for every index one starts from.
\<close>

theorem procesar_url_en_indice_idempotent:
  "\<exists>indice'. procesar_url_en_indice url texto indice = Inr indice' \<and>
     procesar_url_en_indice url texto indice' = Inr indice'"
proof -
  have "con_url url ps (con_url url ps indice) = con_url url ps indice" for ps
    by (rule ext) (auto simp add: con_url_def postings_def)
  then show ?thesis by (simp add: procesar_url_en_indice_def indexar_todas_eq)
qed

text \<open>
  C7. Both queries return, and the set of \<open>buscar_palabras_and\<close> is a subset of the set of
  \<open>buscar_palabras_or\<close>, for every phrase and every index.
\<close>

theorem and_subset_or:
  "\<exists>A B. buscar_palabras_and frase indice = Inr A \<and> buscar_palabras_or frase indice = Inr B
     \<and> A \<subseteq> B"
proof (cases "normalizar_texto frase")
  case Nil
  then show ?thesis by (simp add: buscar_palabras_and_def buscar_palabras_or_def)
next
  case (Cons p ps)
  have tok: "\<forall>q \<in> set (p # ps). normalizar_texto q = [q]"
    using normalizar_token [of _ frase] Cons by simp
  then have p: "buscar_palabra_simple p indice = Inr (postings indice p)"
    by (simp add: buscar_palabra_simple_token)
  from tok have "\<forall>q \<in> set ps. normalizar_texto q = [q]" by simp
  from intersecar_tokens [OF this, of indice "postings indice p"]
  obtain r where r: "intersecar ps indice (postings indice p) = Inr r"
    and sub: "r \<subseteq> postings indice p" by blast
  have a: "buscar_palabras_and frase indice = Inr r"
    using Cons p r by (simp add: buscar_palabras_and_def)
  have b: "buscar_palabras_or frase indice = Inr ({} \<union> (\<Union>q \<in> set (p # ps). postings indice q))"
    unfolding buscar_palabras_or_def Cons by (rule unir_tokens [OF tok])
  from sub have "r \<subseteq> {} \<union> (\<Union>q \<in> set (p # ps). postings indice q)" by auto
  with a b show ?thesis by blast
qed

lemma es_top_ranking:
  "es_top [''perro'', ''gato'', ''gato'', ''perro'', ''raton''] 1 {''perro''}"
  by (simp add: es_top_def antes_def primera_def card_insert_if insert_Diff_if)

text \<open>
  C3. \<open>procesar_url_en_indice_top_n\<close> always returns, and the index it returns is the
  old one with \<open>url\<close> added under exactly the words of a set \<open>S\<close>: the
  \<open>top_n\<close> most frequent distinct tokens of the text (all of them if there are fewer,
  none for \<open>top_n \<le> 0\<close>), a tie going to the token that appears first. There is
  only one such set.
\<close>

theorem procesar_top_n_seleccion:
  "\<exists>S. es_top (normalizar_texto texto) (nat top_n) S
       \<and> (\<forall>S'. es_top (normalizar_texto texto) (nat top_n) S' \<longrightarrow> S' = S)
       \<and> procesar_url_en_indice_top_n url texto indice top_n = Inr (con_url url S indice)"
proof -
  let ?S = "set (top_palabras (normalizar_texto texto) top_n)"
  have "es_top (normalizar_texto texto) (nat top_n) ?S" by (rule es_top_top_palabras)
  moreover from this have "\<forall>S'. es_top (normalizar_texto texto) (nat top_n) S' \<longrightarrow> S' = ?S"
    using es_top_unique by blast
  moreover have "procesar_url_en_indice_top_n url texto indice top_n = Inr (con_url url ?S indice)"
    by (rule procesar_top_eq)
  ultimately show ?thesis by blast
qed

theorem procesar_top_n_seleccion_witness:
  "es_top (normalizar_texto ''perro gato gato perro raton'') (nat 1) {''perro''}
   \<and> procesar_url_en_indice_top_n ''url1'' ''perro gato gato perro raton'' Map.empty 1
       = Inr [''perro'' \<mapsto> {''url1''}]"
proof -
  let ?t = "''perro gato gato perro raton''"
  have top: "es_top (normalizar_texto ?t) (nat 1) {''perro''}"
    using es_top_ranking by (simp add: normalizar_ranking)
  from procesar_top_n_seleccion [of ?t 1 "''url1''" Map.empty]
  obtain S where u: "\<forall>S'. es_top (normalizar_texto ?t) (nat 1) S' \<longrightarrow> S' = S"
    and r: "procesar_url_en_indice_top_n ''url1'' ?t Map.empty 1 = Inr (con_url ''url1'' S Map.empty)"
    by blast
  from u top have "S = {''perro''}" by blast
  moreover have "con_url ''url1'' {''perro''} Map.empty = [''perro'' \<mapsto> {''url1''}]"
    by (rule ext) (simp add: con_url_def postings_def)
  ultimately show ?thesis using top r by simp
qed

text \<open>
  C4. With \<open>top_n\<close> at least the number of distinct tokens of the text,
  \<open>procesar_url_en_indice_top_n\<close> gives the index that \<open>procesar_url_en_indice\<close>
  gives (as a mapping from words to sets; the order of the keys is not modelled).
\<close>

theorem procesar_top_n_todas:
  "int (card (set (normalizar_texto texto))) \<le> top_n \<Longrightarrow>
   procesar_url_en_indice_top_n url texto indice top_n = procesar_url_en_indice url texto indice"
  by (simp add: procesar_top_eq top_palabras_all procesar_url_en_indice_def indexar_todas_eq)

theorem procesar_top_n_todas_witness:
  "int (card (set (normalizar_texto ''perro gato gato perro raton''))) \<le> 3
   \<and> procesar_url_en_indice_top_n ''url1'' ''perro gato gato perro raton'' Map.empty 3
       = procesar_url_en_indice ''url1'' ''perro gato gato perro raton'' Map.empty"
proof -
  have h: "int (card (set (normalizar_texto ''perro gato gato perro raton''))) \<le> 3"
    by (simp add: normalizar_ranking card_insert_if)
  from h procesar_top_n_todas [OF h] show ?thesis by simp
qed

lemma con_url_nonempty:
  assumes "\<forall>p urls. indice p = Some urls \<longrightarrow> urls \<noteq> {} \<and> finite urls"
  shows "\<forall>p urls. con_url url ps indice p = Some urls \<longrightarrow> urls \<noteq> {} \<and> finite urls"
  using assms by (auto simp add: con_url_def postings_def split: option.splits)

lemma procesar_1:
  "procesar_url_en_indice ''url1'' ''el gato come pescado'' Map.empty = Inr indice_1"
proof -
  have "con_url ''url1'' (set [''gato'', ''come'', ''pescado'']) Map.empty = indice_1"
    by (rule ext) (simp add: con_url_def postings_def indice_1_def)
  then show ?thesis
    by (simp only: procesar_url_en_indice_def indexar_todas_eq normalizar_gato)
qed

lemma procesar_2:
  "procesar_url_en_indice ''url2'' ''el perro come carne'' indice_1 = Inr indice_2"
proof -
  have "con_url ''url2'' (set [''perro'', ''come'', ''carne'']) indice_1 = indice_2"
    by (rule ext) (auto simp add: con_url_def postings_def indice_1_def indice_2_def)
  then show ?thesis
    by (simp only: procesar_url_en_indice_def indexar_todas_eq normalizar_perro)
qed

text \<open>
  C9. In an index built from the empty one by the two index builders, every key holds a
  set that is not empty (and finite). That a set holds an identifier at most once is
  what the type of sets says, in the model as in Python.
\<close>

theorem alcanzable_postings:
  "alcanzable indice \<Longrightarrow> indice p = Some urls \<Longrightarrow> urls \<noteq> {} \<and> finite urls"
proof -
  assume r: "alcanzable indice" and s: "indice p = Some urls"
  from r have "\<forall>p urls. indice p = Some urls \<longrightarrow> urls \<noteq> {} \<and> finite urls"
  proof (induction rule: alcanzable.induct)
    case vacio
    show ?case by simp
  next
    case (paso indice url texto indice')
    from paso.hyps(2) have "indice' = con_url url (set (normalizar_texto texto)) indice"
      by (simp add: procesar_url_en_indice_def indexar_todas_eq)
    with paso.IH show ?case using con_url_nonempty by blast
  next
    case (paso_top_n indice url texto top_n indice')
    from paso_top_n.hyps(2)
    have "indice' = con_url url (set (top_palabras (normalizar_texto texto) top_n)) indice"
      by (simp add: procesar_top_eq)
    with paso_top_n.IH show ?case using con_url_nonempty by blast
  qed
  with s show ?thesis by blast
qed

theorem alcanzable_postings_witness:
  "alcanzable indice_2 \<and> indice_2 ''come'' = Some {''url1'', ''url2''}
   \<and> {''url1'', ''url2''} \<noteq> {} \<and> finite {''url1'', ''url2''}"
proof -
  have a: "alcanzable indice_1" using vacio procesar_1 by (rule paso)
  then have b: "alcanzable indice_2" using procesar_2 by (rule paso)
  have c: "indice_2 ''come'' = Some {''url1'', ''url2''}" by (simp add: indice_2_def)
  from alcanzable_postings [OF b c] b c show ?thesis by blast
qed

lemma dom_indice_2: "dom indice_2 = {''gato'', ''come'', ''pescado'', ''perro'', ''carne''}"
  by (auto simp add: indice_2_def)

lemma estadisticas_indice_2: "calcula_estadisticas_indice indice_2 = (5, 2, 6 / 5)"
proof -
  have n: "card (dom indice_2) = 5" by (simp add: dom_indice_2)
  have u: "(\<Union>p \<in> dom indice_2. the (indice_2 p)) = {''url1'', ''url2''}"
    unfolding dom_indice_2 by (auto simp add: indice_2_def)
  have c: "card {''url1'', ''url2''} = 2" by simp
  have t: "(\<Sum>p \<in> dom indice_2. card (the (indice_2 p))) = 6"
    unfolding dom_indice_2 by (simp add: indice_2_def)
  show ?thesis
    by (simp add: calcula_estadisticas_indice_def Let_def n u t)
qed

lemma and_come: "buscar_palabras_and ''come'' indice_2 = Inr {''url1'', ''url2''}"
  by (simp add: buscar_palabras_and_def buscar_palabra_simple_def normalizar_come indice_2_def)

lemma and_gato_carne: "buscar_palabras_and ''gato carne'' indice_2 = Inr {}"
  by (simp add: buscar_palabras_and_def buscar_palabra_simple_def normalizar_gato_carne
      normalizar_una_gato normalizar_una_carne indice_2_def)

lemma or_gato_carne: "buscar_palabras_or ''gato carne'' indice_2 = Inr {''url1'', ''url2''}"
  by (simp add: buscar_palabras_or_def buscar_palabra_simple_def normalizar_gato_carne
      normalizar_una_gato normalizar_una_carne indice_2_def insert_commute)

text \<open>
  C2, as stated. In the worked example the statistics of the index are claimed to be
  (4, 2, 0.5). The keys are gato, come, pescado, perro and carne, five of them, holding six
  postings in all, so the claimed triple is not what the code returns.
\<close>

theorem ejemplo_estadisticas_counterexample:
  "procesar_url_en_indice ''url1'' ''el gato come pescado'' Map.empty = Inr indice_1
   \<and> procesar_url_en_indice ''url2'' ''el perro come carne'' indice_1 = Inr indice_2
   \<and> calcula_estadisticas_indice indice_2 \<noteq> (4, 2, 1 / 2)"
  by (simp add: procesar_1 procesar_2 estadisticas_indice_2)

text \<open>
  C2, amended. From the empty index, the two calls of \<open>procesar_url_en_indice\<close>
  give \<open>indice_2\<close>; on it the three queries return what the claim says, and
  \<open>calcula_estadisticas_indice\<close> returns 5 terms, 2 documents and the average 6/5
  (the float 1.2).
\<close>

theorem ejemplo_completo:
  "procesar_url_en_indice ''url1'' ''el gato come pescado'' Map.empty = Inr indice_1
   \<and> procesar_url_en_indice ''url2'' ''el perro come carne'' indice_1 = Inr indice_2
   \<and> buscar_palabras_and ''come'' indice_2 = Inr {''url1'', ''url2''}
   \<and> buscar_palabras_and ''gato carne'' indice_2 = Inr {}
   \<and> buscar_palabras_or ''gato carne'' indice_2 = Inr {''url1'', ''url2''}
   \<and> calcula_estadisticas_indice indice_2 = (5, 2, 6 / 5)"
  by (simp only: procesar_1 procesar_2 and_come and_gato_carne or_gato_carne
      estadisticas_indice_2 simp_thms)

lemma bien_formada_1: "bien_formada memoria_1"
  by (simp add: bien_formada_def memoria_1_def)

lemma indice_de_1: "indice_de memoria_1 = indice_1"
  by (auto simp add: indice_de_def memoria_1_def indice_1_def fun_eq_iff)

lemma or_m_gato_carne:
  "libre (snd (buscar_palabras_or_m ''gato carne'' memoria_1)) = 5
   \<and> valor (buscar_palabras_or_m ''gato carne'' memoria_1) = Inr {''url1''}"
  by (simp add: buscar_palabras_or_m_def buscar_palabra_simple_m_def nuevo_def update_def
      valor_def memoria_1_def normalizar_gato_carne normalizar_una_gato normalizar_una_carne)

text \<open>
  C10. The three queries leave the index as it was. In a store whose dictionary holds
  objects in use, after \<open>buscar_palabra_simple\<close>, \<open>buscar_palabras_or\<close> and
  \<open>buscar_palabras_and\<close>, whether the call returns or raises, the dictionary binds the
  same keys to the same objects and every posting set has the content it had: the calls
  write only to objects that they create.
\<close>

theorem consultas_no_modifican:
  assumes "bien_formada m"
  shows "dic (snd (buscar_palabra_simple_m x m)) = dic m
         \<and> indice_de (snd (buscar_palabra_simple_m x m)) = indice_de m
         \<and> dic (snd (buscar_palabras_or_m x m)) = dic m
         \<and> indice_de (snd (buscar_palabras_or_m x m)) = indice_de m
         \<and> dic (snd (buscar_palabras_and_m x m)) = dic m
         \<and> indice_de (snd (buscar_palabras_and_m x m)) = indice_de m"
  using marco_indice [OF assms marco_simple [of "{}" m x]]
    marco_indice [OF assms marco_or [of m x]]
    marco_indice [OF assms marco_and [of m x]]
  by simp

theorem consultas_no_modifican_witness:
  "bien_formada memoria_1
   \<and> libre (snd (buscar_palabras_or_m ''gato carne'' memoria_1)) = 5
   \<and> valor (buscar_palabras_or_m ''gato carne'' memoria_1) = Inr {''url1''}
   \<and> dic (snd (buscar_palabra_simple_m ''gato carne'' memoria_1)) = dic memoria_1
   \<and> indice_de (snd (buscar_palabra_simple_m ''gato carne'' memoria_1)) = indice_1
   \<and> dic (snd (buscar_palabras_or_m ''gato carne'' memoria_1)) = dic memoria_1
   \<and> indice_de (snd (buscar_palabras_or_m ''gato carne'' memoria_1)) = indice_1
   \<and> dic (snd (buscar_palabras_and_m ''gato carne'' memoria_1)) = dic memoria_1
   \<and> indice_de (snd (buscar_palabras_and_m ''gato carne'' memoria_1)) = indice_1"
  using consultas_no_modifican [OF bien_formada_1, of "''gato carne''"] or_m_gato_carne
  unfolding indice_de_1 by (simp add: bien_formada_1)

end
